theory Spec2Isabelle
  imports Main "HOL-Library.Multiset"
begin

section \<open>The binary tree of the repository\<close>

text \<open>
  The JavaScript file builds a binary tree out of \<open>Node\<close> objects
  (\<open>value\<close>, \<open>left\<close>, \<open>right\<close>) hanging off a \<open>BinaryTree\<close> object with one field
  \<open>root\<close>. A child link is either \<open>null\<close> or a node. Keys are compared with \<open>===\<close> and
  \<open><\<close>; the keys are taken from a type with a total order (the numbers of the example
  usage), so that \<open>===\<close> is equality and \<open><\<close> is the strict order.

  A mutating method is modelled by the tree it leaves behind. For \<open>invert\<close>, which
  assigns to the links of objects that exist, there is in addition a model on a store of
  objects, related to the one on trees.
\<close>

subsection \<open>Data model\<close>

datatype 'a node = Null | Node 'a "'a node" "'a node"

datatype 'a BinaryTree = BinaryTree (root: "'a node")

text \<open>\<open>new Node(value)\<close>: both links start as \<open>null\<close>.\<close>

definition newNode :: "'a \<Rightarrow> 'a node" where
  "newNode v = Node v Null Null"

text \<open>\<open>new BinaryTree()\<close>: the root starts as \<open>null\<close>.\<close>

definition newBinaryTree :: "'a BinaryTree" where
  "newBinaryTree = BinaryTree Null"

text \<open>
  What a method hands back to its caller. \<open>insert\<close> returns the receiver (\<open>this\<close>) or
  \<open>undefined\<close>; booleans are what \<open>search\<close> returns.
\<close>

datatype jsval = Undefined | Boolean bool | This

text \<open>Reading a field of \<open>null\<close> raises a \<open>TypeError\<close> in JavaScript.\<close>

datatype error = TypeError

subsection \<open>insert\<close>

text \<open>
  The \<open>while (true)\<close> loop of \<open>insert\<close>, started at \<open>current\<close>. It returns the value
  handed back together with the subtree below \<open>current\<close> as the loop leaves it. The
  loop reads \<open>current.value\<close> first, which raises on \<open>null\<close>.
\<close>

fun insert_loop :: "'a::linorder \<Rightarrow> 'a node \<Rightarrow> error + (jsval \<times> 'a node)" where
  "insert_loop v Null = Inl TypeError"
| "insert_loop v (Node cv l r) =
     (if v = cv then Inr (Undefined, Node cv l r)
      else if v < cv then
        (if l = Null then Inr (This, Node cv (newNode v) r)
         else (case insert_loop v l of
                 Inl e \<Rightarrow> Inl e
               | Inr (res, l') \<Rightarrow> Inr (res, Node cv l' r)))
      else
        (if r = Null then Inr (This, Node cv l (newNode v))
         else (case insert_loop v r of
                 Inl e \<Rightarrow> Inl e
               | Inr (res, r') \<Rightarrow> Inr (res, Node cv l r'))))"

definition insert :: "'a::linorder \<Rightarrow> 'a BinaryTree \<Rightarrow> error + (jsval \<times> 'a BinaryTree)" where
  "insert v t =
     (if root t = Null then Inr (This, BinaryTree (newNode v))
      else (case insert_loop v (root t) of
              Inl e \<Rightarrow> Inl e
            | Inr (res, n) \<Rightarrow> Inr (res, BinaryTree n)))"

text \<open>
  The example usage inserts a list of values one after the other into the same tree
  (\<open>values.map((val) => tree.insert(val))\<close>), ignoring what each call returns.
\<close>

fun insert_all :: "'a::linorder list \<Rightarrow> 'a BinaryTree \<Rightarrow> error + 'a BinaryTree" where
  "insert_all [] t = Inr t"
| "insert_all (v # vs) t =
     (case insert v t of
        Inl e \<Rightarrow> Inl e
      | Inr (res, t') \<Rightarrow> insert_all vs t')"

subsection \<open>search\<close>

text \<open>The \<open>while (current)\<close> loop of \<open>search\<close>: it ends with \<open>false\<close> on \<open>null\<close>.\<close>

fun search_loop :: "'a::linorder \<Rightarrow> 'a node \<Rightarrow> bool" where
  "search_loop v Null = False"
| "search_loop v (Node cv l r) =
     (if v = cv then True
      else if v < cv then search_loop v l
      else search_loop v r)"

definition search :: "'a::linorder \<Rightarrow> 'a BinaryTree \<Rightarrow> bool" where
  "search v t = (if root t = Null then False else search_loop v (root t))"

subsection \<open>Traversals\<close>

text \<open>
  Each traversal pushes onto the array \<open>result\<close> that it is given and returns it; the
  call without arguments starts at the root with an empty array.
\<close>

fun inOrderTraversal :: "'a node \<Rightarrow> 'a list \<Rightarrow> 'a list" where
  "inOrderTraversal Null result = result"
| "inOrderTraversal (Node v l r) result =
     inOrderTraversal r (inOrderTraversal l result @ [v])"

fun preOrderTraversal :: "'a node \<Rightarrow> 'a list \<Rightarrow> 'a list" where
  "preOrderTraversal Null result = result"
| "preOrderTraversal (Node v l r) result =
     preOrderTraversal r (preOrderTraversal l (result @ [v]))"

fun postOrderTraversal :: "'a node \<Rightarrow> 'a list \<Rightarrow> 'a list" where
  "postOrderTraversal Null result = result"
| "postOrderTraversal (Node v l r) result =
     postOrderTraversal r (postOrderTraversal l result) @ [v]"

subsection \<open>Minimum, maximum, height, count\<close>

text \<open>\<open>findMin\<close> and \<open>findMax\<close> return \<open>null\<close> (here \<open>None\<close>) on \<open>null\<close>.\<close>

fun findMin :: "'a node \<Rightarrow> 'a option" where
  "findMin Null = None"
| "findMin (Node v l r) = (if l \<noteq> Null then findMin l else Some v)"

fun findMax :: "'a node \<Rightarrow> 'a option" where
  "findMax Null = None"
| "findMax (Node v l r) = (if r \<noteq> Null then findMax r else Some v)"

fun getHeight :: "'a node \<Rightarrow> int" where
  "getHeight Null = - 1"
| "getHeight (Node v l r) =
     (let leftHeight = getHeight l; rightHeight = getHeight r
      in max leftHeight rightHeight + 1)"

fun countNodes :: "'a node \<Rightarrow> nat" where
  "countNodes Null = 0"
| "countNodes (Node v l r) = 1 + countNodes l + countNodes r"

subsection \<open>invert\<close>

text \<open>
  \<open>invert\<close> swaps the two links of the node and then inverts the new left subtree (the
  old right one) and the new right subtree (the old left one). It returns the node it was
  given, \<open>null\<close> for \<open>null\<close>.
\<close>

fun invert :: "'a node \<Rightarrow> 'a node" where
  "invert Null = Null"
| "invert (Node v l r) = Node v (invert r) (invert l)"

subsection \<open>invert on the objects themselves\<close>

text \<open>
  \<open>invert\<close> assigns to the fields \<open>left\<close> and \<open>right\<close> of the node objects it visits.
  To say which objects it touches, the nodes are also modelled as objects in a store: a
  reference is \<open>null\<close> (\<open>None\<close>) or the address of an object, and an object has the three
  fields that the constructor \<open>Node\<close> sets.
\<close>

type_synonym ref = "nat option"

record 'a obj =
  val :: 'a
  left :: ref
  right :: ref

type_synonym 'a store = "nat \<Rightarrow> 'a obj option"

text \<open>
  The method \<open>invert\<close> on the store. The recursion follows references, so it is bounded
  by \<open>fuel\<close>, the depth of calls that is left; \<open>None\<close> means that the calls went deeper
  (or that a reference led to no object, which no JavaScript reference does). After the
  swap the first call is on \<open>node.left\<close>, which holds the old right reference; the second
  call reads \<open>node.right\<close> from the store as the first call left it.
\<close>

fun invert_store :: "nat \<Rightarrow> 'a store \<Rightarrow> ref \<Rightarrow> 'a store option" where
  "invert_store 0 s node = None"
| "invert_store (Suc fuel) s None = Some s"
| "invert_store (Suc fuel) s (Some a) =
     (case s a of
        None \<Rightarrow> None
      | Some obj \<Rightarrow>
          (let l = left obj;
               r = right obj;
               s1 = s(a \<mapsto> obj\<lparr>left := r, right := l\<rparr>)
           in case invert_store fuel s1 r of
                None \<Rightarrow> None
              | Some s2 \<Rightarrow>
                  (case s2 a of
                     None \<Rightarrow> None
                   | Some obj2 \<Rightarrow> invert_store fuel s2 (right obj2))))"

text \<open>
  The store holds, at the reference \<open>p\<close>, the tree \<open>t\<close> whose nodes are labelled with the
  address of their object and its key.
\<close>

fun repr :: "'a store \<Rightarrow> ref \<Rightarrow> (nat \<times> 'a) node \<Rightarrow> bool" where
  "repr s p Null = (p = None)"
| "repr s p (Node (a, v) l r) =
     (p = Some a \<and>
      (case s a of
         None \<Rightarrow> False
       | Some obj \<Rightarrow> val obj = v \<and> repr s (left obj) l \<and> repr s (right obj) r))"

text \<open>A store with the two objects of the tree that holds 50 and, to its left, 10.\<close>

definition example_store :: "int store" where
  "example_store = [0 \<mapsto> \<lparr>val = 50, left = Some 1, right = None\<rparr>,
                    1 \<mapsto> \<lparr>val = 10, left = None, right = None\<rparr>]"

subsection \<open>visualize\<close>

text \<open>
  Strings are modelled by their bytes in UTF-8. The two connectors of line 230 and the
  continuation prefix of line 233 are the string literals of the source file, byte for
  byte as the file holds them; each connector ends with one blank, the continuation
  prefix with three.
\<close>

definition corner :: string where
  "corner = [CHR 0xC3, CHR 0xA2, CHR 0xE2, CHR 0x80, CHR 0x9D, CHR 0xE2, CHR 0x80, CHR 0x9D,
             CHR 0xC3, CHR 0xA2, CHR 0xE2, CHR 0x80, CHR 0x9D, CHR 0xE2, CHR 0x82, CHR 0xAC,
             CHR 0xC3, CHR 0xA2, CHR 0xE2, CHR 0x80, CHR 0x9D, CHR 0xE2, CHR 0x82, CHR 0xAC,
             CHR 0x20]"

definition tee :: string where
  "tee = [CHR 0xC3, CHR 0xA2, CHR 0xE2, CHR 0x80, CHR 0x9D, CHR 0xC5, CHR 0x93,
          CHR 0xC3, CHR 0xA2, CHR 0xE2, CHR 0x80, CHR 0x9D, CHR 0xE2, CHR 0x82, CHR 0xAC,
          CHR 0xC3, CHR 0xA2, CHR 0xE2, CHR 0x80, CHR 0x9D, CHR 0xE2, CHR 0x82, CHR 0xAC,
          CHR 0x20]"

definition bar :: string where
  "bar = [CHR 0xC3, CHR 0xA2, CHR 0xE2, CHR 0x80, CHR 0x9D, CHR 0xE2, CHR 0x80, CHR 0x9A,
          CHR 0x20, CHR 0x20, CHR 0x20]"

definition newline :: string where
  "newline = [CHR 0x0A]"

text \<open>
  The local function \<open>buildTreeLines\<close> pushes onto the array \<open>lines\<close> of the enclosing
  call; here it takes the array and returns it. \<open>toString\<close> is the \<open>toString\<close> method of
  the keys.
\<close>

fun buildTreeLines ::
  "('a \<Rightarrow> string) \<Rightarrow> 'a node \<Rightarrow> string \<Rightarrow> bool \<Rightarrow> string list \<Rightarrow> string list" where
  "buildTreeLines toString Null prefix isLast lines = lines"
| "buildTreeLines toString (Node v l r) prefix isLast lines =
     (let connector = (if isLast then corner else tee);
          lines1 = lines @ [prefix @ connector @ toString v];
          newPrefix = prefix @ (if isLast then ''    '' else bar);
          hasRight = (r \<noteq> Null);
          hasLeft = (l \<noteq> Null);
          lines2 = (if hasRight
                    then buildTreeLines toString r newPrefix (\<not> hasLeft) lines1
                    else lines1)
      in if hasLeft then buildTreeLines toString l newPrefix True lines2 else lines2)"

text \<open>
  The array \<open>lines\<close> that \<open>visualize\<close> has built when it logs it. With a \<open>null\<close> root
  \<open>visualize\<close> returns before it builds any line.
\<close>

fun visualize_lines :: "('a \<Rightarrow> string) \<Rightarrow> 'a node \<Rightarrow> string list" where
  "visualize_lines toString Null = []"
| "visualize_lines toString (Node v l r) =
     (let lines = [toString v];
          hasRight = (r \<noteq> Null);
          hasLeft = (l \<noteq> Null);
          lines1 = (if hasRight then buildTreeLines toString r [] (\<not> hasLeft) lines
                    else lines)
      in if hasLeft then buildTreeLines toString l [] True lines1 else lines1)"

text \<open>\<open>Array.prototype.join\<close> with a separator.\<close>

fun join :: "string list \<Rightarrow> string \<Rightarrow> string" where
  "join [] sep = []"
| "join [x] sep = x"
| "join (x # y # ys) sep = x @ sep @ join (y # ys) sep"

text \<open>
  \<open>visualize\<close> returns nothing and contains no assignment to a field of the tree or of
  a node; what it does is to call \<open>console.log\<close> once. The model returns the tree as the
  call leaves it, and the strings logged.
\<close>

definition visualize ::
  "('a \<Rightarrow> string) \<Rightarrow> 'a BinaryTree \<Rightarrow> 'a BinaryTree \<times> string list" where
  "visualize toString t =
     (if root t = Null then (t, [''Tree is empty''])
      else (t, [newline @ join (visualize_lines toString (root t)) newline @ newline]))"

subsection \<open>The example usage\<close>

text \<open>The values that the example usage at the end of the file inserts, in this order.\<close>

definition example_values :: "int list" where
  "example_values = [50, 10, 30, 25, 75, 60, 90, 5, 15, 27, 35, 55, 65, 85, 95]"

subsection \<open>Notions of the specification\<close>

text \<open>
  The ordering invariant of the data model: every key of the left subtree is strictly
  smaller than the key of the node, every key of the right subtree strictly greater.
\<close>

fun bst :: "'a::linorder node \<Rightarrow> bool" where
  "bst Null = True"
| "bst (Node v l r) =
     ((\<forall>x \<in> set_node l. x < v) \<and> (\<forall>x \<in> set_node r. v < x) \<and> bst l \<and> bst r)"

text \<open>
  The keys met when only left (only right) links are followed from a node, in the order
  in which they are met.
\<close>

fun left_spine :: "'a node \<Rightarrow> 'a list" where
  "left_spine Null = []"
| "left_spine (Node v l r) = v # left_spine l"

fun right_spine :: "'a node \<Rightarrow> 'a list" where
  "right_spine Null = []"
| "right_spine (Node v l r) = v # right_spine r"

text \<open>
  The rendering in the words of the specification. The children that a node has are
  taken with the right one first. Among siblings the last one is marked with the corner
  connector and the others with the tee connector, and what lies below a sibling is
  indented by four blanks under the last one and by the continuation prefix under the
  others. The root stands alone on the first line; an empty tree gives no line.
\<close>

fun children :: "'a node \<Rightarrow> 'a node list" where
  "children Null = []"
| "children (Node v l r) = filter (\<lambda>c. c \<noteq> Null) [r, l]"

function spec_siblings :: "('a \<Rightarrow> string) \<Rightarrow> string \<Rightarrow> 'a node list \<Rightarrow> string list" where
  "spec_siblings toString prefix [] = []"
| "spec_siblings toString prefix (Null # cs) = spec_siblings toString prefix cs"
| "spec_siblings toString prefix (Node v l r # cs) =
     (prefix @ (if cs = [] then corner else tee) @ toString v)
     # spec_siblings toString (prefix @ (if cs = [] then ''    '' else bar))
         (children (Node v l r))
     @ spec_siblings toString prefix cs"
  by pat_completeness auto
termination
  by (relation "measure (\<lambda>(toString, prefix, cs). 2 * sum_list (map size cs) + length cs)")
     auto

fun spec_render :: "('a \<Rightarrow> string) \<Rightarrow> 'a node \<Rightarrow> string list" where
  "spec_render toString Null = []"
| "spec_render toString (Node v l r) =
     toString v # spec_siblings toString [] (children (Node v l r))"

section \<open>Properties\<close>

subsection \<open>The traversals without their accumulator\<close>

lemma inOrderTraversal_acc:
  "inOrderTraversal n result = result @ inOrderTraversal n []"
proof (induction n arbitrary: result)
  case Null
  show ?case by simp
next
  case (Node v l r)
  have "inOrderTraversal (Node v l r) result
      = (inOrderTraversal l result @ [v]) @ inOrderTraversal r []"
    using Node.IH(2) [of "inOrderTraversal l result @ [v]"] by simp
  also have "\<dots> = result @ (inOrderTraversal l [] @ [v]) @ inOrderTraversal r []"
    using Node.IH(1) [of result] by simp
  also have "\<dots> = result @ inOrderTraversal (Node v l r) []"
    using Node.IH(2) [of "inOrderTraversal l [] @ [v]"] by simp
  finally show ?case .
qed

lemma inOrderTraversal_Node:
  "inOrderTraversal (Node v l r) [] = inOrderTraversal l [] @ v # inOrderTraversal r []"
  using inOrderTraversal_acc [of r "inOrderTraversal l [] @ [v]"] by simp

lemma preOrderTraversal_acc:
  "preOrderTraversal n result = result @ preOrderTraversal n []"
proof (induction n arbitrary: result)
  case Null
  show ?case by simp
next
  case (Node v l r)
  have "preOrderTraversal (Node v l r) result
      = preOrderTraversal l (result @ [v]) @ preOrderTraversal r []"
    using Node.IH(2) [of "preOrderTraversal l (result @ [v])"] by simp
  also have "\<dots> = result @ (v # preOrderTraversal l []) @ preOrderTraversal r []"
    using Node.IH(1) [of "result @ [v]"] by simp
  also have "\<dots> = result @ preOrderTraversal (Node v l r) []"
    using Node.IH(2) [of "preOrderTraversal l [v]"] Node.IH(1) [of "[v]"] by simp
  finally show ?case .
qed

lemma preOrderTraversal_Node:
  "preOrderTraversal (Node v l r) [] = v # preOrderTraversal l [] @ preOrderTraversal r []"
  using preOrderTraversal_acc [of r "preOrderTraversal l [v]"]
        preOrderTraversal_acc [of l "[v]"] by simp

lemma postOrderTraversal_acc:
  "postOrderTraversal n result = result @ postOrderTraversal n []"
proof (induction n arbitrary: result)
  case Null
  show ?case by simp
next
  case (Node v l r)
  have "postOrderTraversal (Node v l r) result
      = postOrderTraversal l result @ postOrderTraversal r [] @ [v]"
    using Node.IH(2) [of "postOrderTraversal l result"] by simp
  also have "\<dots> = result @ postOrderTraversal l [] @ postOrderTraversal r [] @ [v]"
    using Node.IH(1) [of result] by simp
  also have "\<dots> = result @ postOrderTraversal (Node v l r) []"
    using Node.IH(2) [of "postOrderTraversal l []"] by simp
  finally show ?case .
qed

lemma postOrderTraversal_Node:
  "postOrderTraversal (Node v l r) [] = postOrderTraversal l [] @ postOrderTraversal r [] @ [v]"
  using postOrderTraversal_acc [of r "postOrderTraversal l []"] by simp

subsection \<open>The search-tree property\<close>

lemma set_inOrderTraversal: "set (inOrderTraversal n []) = set_node n"
  by (induction n) (auto simp del: inOrderTraversal.simps(2) simp add: inOrderTraversal_Node)

lemma bst_iff_sorted: "bst n \<longleftrightarrow> sorted_wrt (<) (inOrderTraversal n [])"
  by (induction n)
     (auto simp del: inOrderTraversal.simps(2)
           simp add: inOrderTraversal_Node sorted_wrt_append set_inOrderTraversal
           intro: less_trans)

subsection \<open>The loop of insert\<close>

lemma search_loop_in_set: "search_loop v n \<Longrightarrow> v \<in> set_node n"
  by (induction n) (auto split: if_splits)

lemma bst_search_loop: "bst n \<Longrightarrow> search_loop v n \<longleftrightarrow> v \<in> set_node n"
  by (induction n) (auto split: if_splits)

lemma insert_loop_total:
  "n \<noteq> Null \<Longrightarrow> \<exists>res n'. insert_loop v n = Inr (res, n')"
proof (induction n)
  case Null
  then show ?case by simp
next
  case (Node cv l r)
  show ?case
  proof (cases "v = cv")
    case True
    then show ?thesis by simp
  next
    case neq: False
    show ?thesis
    proof (cases "v < cv")
      case True
      then show ?thesis using neq Node.IH(1) by (cases "l = Null") auto
    next
      case False
      then show ?thesis using neq Node.IH(2) by (cases "r = Null") auto
    qed
  qed
qed

lemma insert_loop_found:
  "search_loop v n \<Longrightarrow> insert_loop v n = Inr (Undefined, n)"
  by (induction n) (auto split: if_splits)

lemma insert_loop_result:
  "insert_loop v n = Inr (res, n') \<Longrightarrow> res = (if search_loop v n then Undefined else This)"
  by (induction n arbitrary: res n')
     (auto simp: newNode_def split: if_splits sum.splits prod.splits)

lemma insert_loop_search:
  "insert_loop v n = Inr (res, n') \<Longrightarrow> search_loop v n'"
  by (induction n arbitrary: res n')
     (auto simp: newNode_def split: if_splits sum.splits prod.splits)

lemma insert_loop_set:
  "insert_loop v n = Inr (res, n') \<Longrightarrow> set_node n' = Set.insert v (set_node n)"
  by (induction n arbitrary: res n')
     (auto simp: newNode_def split: if_splits sum.splits prod.splits)

lemma insert_loop_bst:
  "insert_loop v n = Inr (res, n') \<Longrightarrow> bst n \<Longrightarrow> bst n'"
proof (induction n arbitrary: res n')
  case Null
  then show ?case by simp
next
  case (Node cv l r)
  show ?case
  proof (cases "v = cv")
    case True
    then show ?thesis using Node.prems by auto
  next
    case neq: False
    show ?thesis
    proof (cases "v < cv")
      case lt: True
      show ?thesis
      proof (cases "l = Null")
        case True
        then show ?thesis using Node.prems neq lt by (auto simp: newNode_def)
      next
        case False
        then obtain l' where l': "insert_loop v l = Inr (res, l')" and n': "n' = Node cv l' r"
          using Node.prems(1) neq lt by (auto split: sum.splits prod.splits)
        have "bst l'" using Node.IH(1) [OF l'] Node.prems(2) by simp
        moreover have "set_node l' = Set.insert v (set_node l)"
          by (rule insert_loop_set [OF l'])
        ultimately show ?thesis using Node.prems(2) lt n' by auto
      qed
    next
      case ge: False
      then have gt: "cv < v" using neq by simp
      show ?thesis
      proof (cases "r = Null")
        case True
        then show ?thesis using Node.prems neq ge gt by (auto simp: newNode_def)
      next
        case False
        then obtain r' where r': "insert_loop v r = Inr (res, r')" and n': "n' = Node cv l r'"
          using Node.prems(1) neq ge by (auto split: sum.splits prod.splits)
        have "bst r'" using Node.IH(2) [OF r'] Node.prems(2) by simp
        moreover have "set_node r' = Set.insert v (set_node r)"
          by (rule insert_loop_set [OF r'])
        ultimately show ?thesis using Node.prems(2) gt n' by auto
      qed
    qed
  qed
qed

lemma insert_loop_count:
  "insert_loop v n = Inr (res, n') \<Longrightarrow>
   countNodes n' = countNodes n + (if res = This then 1 else 0)"
  by (induction n arbitrary: res n')
     (auto simp: newNode_def split: if_splits sum.splits prod.splits)

subsection \<open>insert on the tree object\<close>

lemma insert_total: "\<exists>res t'. insert v t = Inr (res, t')"
proof (cases "root t = Null")
  case True
  then show ?thesis by (simp add: insert_def)
next
  case False
  then obtain res n' where "insert_loop v (root t) = Inr (res, n')"
    using insert_loop_total by blast
  then show ?thesis using False by (simp add: insert_def)
qed

lemma insert_found: "search v t \<Longrightarrow> insert v t = Inr (Undefined, t)"
  by (cases t) (auto simp: insert_def search_def insert_loop_found split: if_splits)

lemma insert_result:
  "insert v t = Inr (res, t') \<Longrightarrow> res = (if search v t then Undefined else This)"
  by (auto simp: insert_def search_def split: if_splits sum.splits prod.splits
           dest: insert_loop_result)

lemma insert_search: "insert v t = Inr (res, t') \<Longrightarrow> search v t'"
proof (cases "root t = Null")
  case True
  assume "insert v t = Inr (res, t')"
  then show ?thesis using True by (auto simp: insert_def search_def newNode_def)
next
  case False
  assume "insert v t = Inr (res, t')"
  then obtain n' where n': "insert_loop v (root t) = Inr (res, n')" and t': "t' = BinaryTree n'"
    using False by (auto simp: insert_def split: sum.splits prod.splits)
  have "search_loop v n'" by (rule insert_loop_search [OF n'])
  then show ?thesis using t' by (auto simp: search_def)
qed

lemma insert_set:
  "insert v t = Inr (res, t') \<Longrightarrow> set_node (root t') = Set.insert v (set_node (root t))"
  by (auto simp: insert_def newNode_def split: if_splits sum.splits prod.splits
           dest: insert_loop_set)

lemma insert_bst: "insert v t = Inr (res, t') \<Longrightarrow> bst (root t) \<Longrightarrow> bst (root t')"
  by (auto simp: insert_def newNode_def split: if_splits sum.splits prod.splits
           dest: insert_loop_bst)

lemma insert_all_bst:
  "bst (root t) \<Longrightarrow>
   \<exists>t'. insert_all vs t = Inr t' \<and> bst (root t') \<and>
        set_node (root t') = set_node (root t) \<union> set vs"
proof (induction vs arbitrary: t)
  case Nil
  then show ?case by simp
next
  case (Cons v vs)
  obtain res t1 where t1: "insert v t = Inr (res, t1)"
    using insert_total by blast
  have b1: "bst (root t1)" using insert_bst [OF t1] Cons.prems by simp
  have s1: "set_node (root t1) = Set.insert v (set_node (root t))"
    by (rule insert_set [OF t1])
  obtain t' where "insert_all vs t1 = Inr t'" "bst (root t')"
      "set_node (root t') = set_node (root t1) \<union> set vs"
    using Cons.IH [OF b1] by blast
  then show ?case using t1 s1 by auto
qed

lemma insert_count:
  "insert v t = Inr (res, t') \<Longrightarrow>
   countNodes (root t') = countNodes (root t) + (if res = This then 1 else 0)"
  by (auto simp: insert_def newNode_def split: if_splits sum.splits prod.splits
           dest: insert_loop_count)

lemma bst_search: "bst (root t) \<Longrightarrow> search v t \<longleftrightarrow> v \<in> set_node (root t)"
  by (cases t) (auto simp: search_def bst_search_loop)

lemma search_in_set: "search v t \<Longrightarrow> v \<in> set_node (root t)"
  by (auto simp: search_def search_loop_in_set split: if_splits)

subsection \<open>Traversals, count and mirror image\<close>

lemma length_inOrderTraversal: "length (inOrderTraversal n []) = countNodes n"
  by (induction n) (simp_all del: inOrderTraversal.simps(2) add: inOrderTraversal_Node)

lemma length_preOrderTraversal: "length (preOrderTraversal n []) = countNodes n"
  by (induction n) (simp_all del: preOrderTraversal.simps(2) add: preOrderTraversal_Node)

lemma length_postOrderTraversal: "length (postOrderTraversal n []) = countNodes n"
  by (induction n) (simp_all del: postOrderTraversal.simps(2) add: postOrderTraversal_Node)

lemma mset_preOrderTraversal:
  "mset (preOrderTraversal n []) = mset (inOrderTraversal n [])"
  by (induction n)
     (simp_all del: inOrderTraversal.simps(2) preOrderTraversal.simps(2)
               add: inOrderTraversal_Node preOrderTraversal_Node)

lemma mset_postOrderTraversal:
  "mset (postOrderTraversal n []) = mset (inOrderTraversal n [])"
  by (induction n)
     (simp_all del: inOrderTraversal.simps(2) postOrderTraversal.simps(2)
               add: inOrderTraversal_Node postOrderTraversal_Node)

lemma invert_invert: "invert (invert n) = n"
  by (induction n) simp_all

lemma inOrderTraversal_invert:
  "inOrderTraversal (invert n) [] = rev (inOrderTraversal n [])"
  by (induction n) (simp_all del: inOrderTraversal.simps(2) add: inOrderTraversal_Node)

lemma countNodes_invert: "countNodes (invert n) = countNodes n"
  by (induction n) simp_all

lemma left_spine_empty: "left_spine n = [] \<longleftrightarrow> n = Null"
  by (cases n) simp_all

lemma right_spine_empty: "right_spine n = [] \<longleftrightarrow> n = Null"
  by (cases n) simp_all

lemma findMin_left_spine:
  "findMin n = (if n = Null then None else Some (last (left_spine n)))"
  by (induction n) (auto simp: left_spine_empty)

lemma findMax_right_spine:
  "findMax n = (if n = Null then None else Some (last (right_spine n)))"
  by (induction n) (auto simp: right_spine_empty)

lemma findMin_hd:
  "n \<noteq> Null \<Longrightarrow> findMin n = Some (hd (inOrderTraversal n []))"
proof (induction n)
  case Null
  then show ?case by simp
next
  case (Node v l r)
  show ?case
  proof (cases "l = Null")
    case True
    then show ?thesis by (simp del: inOrderTraversal.simps(2) add: inOrderTraversal_Node)
  next
    case False
    then obtain lv ll lr where l: "l = Node lv ll lr" by (cases l) auto
    have "inOrderTraversal l [] \<noteq> []"
      unfolding l inOrderTraversal_Node by simp
    then show ?thesis using False Node.IH(1)
      by (simp del: inOrderTraversal.simps(2) add: inOrderTraversal_Node)
  qed
qed

lemma findMax_last:
  "n \<noteq> Null \<Longrightarrow> findMax n = Some (last (inOrderTraversal n []))"
proof (induction n)
  case Null
  then show ?case by simp
next
  case (Node v l r)
  show ?case
  proof (cases "r = Null")
    case True
    then show ?thesis by (simp del: inOrderTraversal.simps(2) add: inOrderTraversal_Node)
  next
    case False
    then obtain rv rl rr where r: "r = Node rv rl rr" by (cases r) auto
    have "inOrderTraversal r [] \<noteq> []"
      unfolding r inOrderTraversal_Node by simp
    then show ?thesis using False Node.IH(2)
      by (simp del: inOrderTraversal.simps(2) add: inOrderTraversal_Node)
  qed
qed

lemma example_tree:
  "insert_all example_values newBinaryTree = Inr (BinaryTree
     (Node 50
       (Node 10 (Node 5 Null Null)
         (Node 30 (Node 25 (Node 15 Null Null) (Node 27 Null Null)) (Node 35 Null Null)))
       (Node 75 (Node 60 (Node 55 Null Null) (Node 65 Null Null))
         (Node 90 (Node 85 Null Null) (Node 95 Null Null)))))"
  by (simp add: example_values_def newBinaryTree_def insert_def newNode_def)

subsection \<open>invert on the store\<close>

lemma invert_store_frame:
  "invert_store fuel s p = Some s' \<Longrightarrow>
   dom s' = dom s \<and> (\<forall>a. map_option val (s' a) = map_option val (s a))"
proof (induction fuel arbitrary: s p s')
  case 0
  then show ?case by simp
next
  case (Suc fuel)
  show ?case
  proof (cases p)
    case None
    then show ?thesis using Suc.prems by simp
  next
    case (Some a)
    then obtain obj s2 obj2 where obj: "s a = Some obj"
      and s2: "invert_store fuel (s(a \<mapsto> obj\<lparr>left := right obj, right := left obj\<rparr>)) (right obj) = Some s2"
      and obj2: "s2 a = Some obj2"
      and s': "invert_store fuel s2 (right obj2) = Some s'"
      using Suc.prems by (auto simp: Let_def split: option.splits)
    let ?s1 = "s(a \<mapsto> obj\<lparr>left := right obj, right := left obj\<rparr>)"
    have f1: "dom ?s1 = dom s \<and> (\<forall>b. map_option val (?s1 b) = map_option val (s b))"
      using obj by auto
    have f2: "dom s2 = dom ?s1 \<and> (\<forall>b. map_option val (s2 b) = map_option val (?s1 b))"
      by (rule Suc.IH [OF s2])
    have f3: "dom s' = dom s2 \<and> (\<forall>b. map_option val (s' b) = map_option val (s2 b))"
      by (rule Suc.IH [OF s'])
    show ?thesis using f1 f2 f3 by (metis)
  qed
qed

lemma repr_frame:
  "repr s p t \<Longrightarrow> (\<forall>a \<in> fst ` set_node t. s' a = s a) \<Longrightarrow> repr s' p t"
proof (induction t arbitrary: p)
  case Null
  then show ?case by simp
next
  case (Node x l r)
  obtain a v where x: "x = (a, v)" by (cases x)
  from Node.prems(1) obtain obj where obj: "s a = Some obj" "p = Some a" "val obj = v"
     "repr s (left obj) l" "repr s (right obj) r"
    unfolding x by (auto split: option.splits)
  have "s' a = Some obj" using Node.prems(2) obj(1) x by simp
  moreover have "repr s' (left obj) l" using Node.IH(1) [OF obj(4)] Node.prems(2) by simp
  moreover have "repr s' (right obj) r" using Node.IH(2) [OF obj(5)] Node.prems(2) by simp
  ultimately show ?case using obj unfolding x by simp
qed

lemma set_node_invert: "set_node (invert t) = set_node t"
  by (induction t) auto

lemma set_preOrderTraversal: "set (preOrderTraversal n []) = set_node n"
  by (induction n) (auto simp del: preOrderTraversal.simps(2) simp add: preOrderTraversal_Node)

lemma invert_store_repr:
  "repr s p t \<Longrightarrow> distinct (map fst (preOrderTraversal t [])) \<Longrightarrow> countNodes t < fuel \<Longrightarrow>
   \<exists>s'. invert_store fuel s p = Some s' \<and> repr s' p (invert t) \<and>
        (\<forall>a. a \<notin> fst ` set_node t \<longrightarrow> s' a = s a)"
proof (induction t arbitrary: s p fuel)
  case Null
  then obtain f where "fuel = Suc f" by (cases fuel) auto
  then show ?case using Null by simp
next
  case (Node x l r)
  obtain a v where x: "x = (a, v)" by (cases x)
  obtain f where fuel: "fuel = Suc f" using Node.prems(3) by (cases fuel) auto
  have cl: "countNodes l < f" and cr: "countNodes r < f"
    using Node.prems(3) fuel by simp_all
  from Node.prems(1) obtain obj where obj: "s a = Some obj" and p: "p = Some a"
    and v: "val obj = v" and rl: "repr s (left obj) l" and rr: "repr s (right obj) r"
    unfolding x by (auto split: option.splits)
  let ?A = "\<lambda>t. fst ` set_node t"
  from Node.prems(2) have dl: "distinct (map fst (preOrderTraversal l []))"
    and dr: "distinct (map fst (preOrderTraversal r []))"
    and al: "a \<notin> ?A l" and ar: "a \<notin> ?A r" and disj: "?A l \<inter> ?A r = {}"
    unfolding x preOrderTraversal_Node
    by (auto simp: set_preOrderTraversal [symmetric])
  let ?obj' = "obj\<lparr>left := right obj, right := left obj\<rparr>"
  let ?s1 = "s(a \<mapsto> ?obj')"
  have "repr ?s1 (right obj) r"
    by (rule repr_frame [OF rr]) (use ar in auto)
  from Node.IH(2) [OF this dr cr]
  obtain s2 where s2: "invert_store f ?s1 (right obj) = Some s2"
    and r2: "repr s2 (right obj) (invert r)"
    and fr2: "\<forall>b. b \<notin> ?A r \<longrightarrow> s2 b = ?s1 b"
    by blast
  have s2a: "s2 a = Some ?obj'" using fr2 ar by simp
  have "\<forall>b \<in> ?A l. s2 b = s b"
  proof
    fix b assume b: "b \<in> ?A l"
    then have "b \<notin> ?A r" using disj by blast
    moreover have "b \<noteq> a" using al b by blast
    ultimately show "s2 b = s b" using fr2 by simp
  qed
  then have "repr s2 (left obj) l"
    by (rule repr_frame [OF rl])
  from Node.IH(1) [OF this dl cl]
  obtain s3 where s3: "invert_store f s2 (left obj) = Some s3"
    and r3: "repr s3 (left obj) (invert l)"
    and fr3: "\<forall>b. b \<notin> ?A l \<longrightarrow> s3 b = s2 b"
    by blast
  have s3a: "s3 a = Some ?obj'" using fr3 al s2a by simp
  have "\<forall>b \<in> ?A (invert r). s3 b = s2 b"
  proof
    fix b assume "b \<in> ?A (invert r)"
    then have "b \<notin> ?A l" using disj by (auto simp: set_node_invert)
    then show "s3 b = s2 b" using fr3 by simp
  qed
  then have r3r: "repr s3 (right obj) (invert r)"
    by (rule repr_frame [OF r2])
  have run: "invert_store fuel s p = Some s3"
    unfolding fuel p using obj s2 s2a s3 by (simp add: Let_def)
  have "repr s3 p (invert (Node x l r))"
    unfolding x using p s3a v r3 r3r by simp
  moreover have "\<forall>b. b \<notin> ?A (Node x l r) \<longrightarrow> s3 b = s b"
  proof (intro allI impI)
    fix b assume "b \<notin> ?A (Node x l r)"
    then have "b \<noteq> a" "b \<notin> ?A l" "b \<notin> ?A r" unfolding x by auto
    then show "s3 b = s b" using fr2 fr3 by simp
  qed
  ultimately show ?case using run by blast
qed

lemma mset_inOrderTraversal_invert:
  "mset (inOrderTraversal (invert n) []) = mset (inOrderTraversal n [])"
  by (simp add: inOrderTraversal_invert)

subsection \<open>The lines of visualize\<close>

lemma buildTreeLines_acc:
  "buildTreeLines toString n prefix isLast lines
     = lines @ buildTreeLines toString n prefix isLast []"
proof (induction n arbitrary: prefix isLast lines)
  case Null
  show ?case by simp
next
  case (Node v l r)
  let ?c = "prefix @ (if isLast then corner else tee) @ toString v"
  let ?p = "prefix @ (if isLast then ''    '' else bar)"
  have r: "buildTreeLines toString r ?p (l = Null) acc
             = acc @ buildTreeLines toString r ?p (l = Null) []" for acc
    by (rule Node.IH(2))
  have l: "buildTreeLines toString l ?p True acc
             = acc @ buildTreeLines toString l ?p True []" for acc
    by (rule Node.IH(1))
  have step: "buildTreeLines toString (Node v l r) prefix isLast acc
      = acc @ ?c # buildTreeLines toString r ?p (l = Null) []
            @ buildTreeLines toString l ?p True []" for acc
  proof -
    have "buildTreeLines toString (Node v l r) prefix isLast acc
        = buildTreeLines toString l ?p True (buildTreeLines toString r ?p (l = Null) (acc @ [?c]))"
      by (cases "r = Null"; cases "l = Null") (simp_all add: Let_def)
    also have "\<dots> = (acc @ [?c]) @ buildTreeLines toString r ?p (l = Null) []
                       @ buildTreeLines toString l ?p True []"
      using l [of "buildTreeLines toString r ?p (l = Null) (acc @ [?c])"] r [of "acc @ [?c]"]
      by simp
    finally show ?thesis by simp
  qed
  show ?case using step [of lines] step [of "[]"] by simp
qed

lemma buildTreeLines_Node:
  "buildTreeLines toString (Node v l r) prefix isLast []
     = (prefix @ (if isLast then corner else tee) @ toString v)
       # buildTreeLines toString r (prefix @ (if isLast then ''    '' else bar)) (l = Null) []
       @ buildTreeLines toString l (prefix @ (if isLast then ''    '' else bar)) True []"
proof -
  let ?c = "prefix @ (if isLast then corner else tee) @ toString v"
  let ?p = "prefix @ (if isLast then ''    '' else bar)"
  have "buildTreeLines toString (Node v l r) prefix isLast []
      = buildTreeLines toString l ?p True (buildTreeLines toString r ?p (l = Null) [?c])"
    by (cases "r = Null"; cases "l = Null") (simp_all add: Let_def)
  also have "\<dots> = buildTreeLines toString r ?p (l = Null) [?c]
                     @ buildTreeLines toString l ?p True []"
    by (rule buildTreeLines_acc)
  also have "buildTreeLines toString r ?p (l = Null) [?c]
               = [?c] @ buildTreeLines toString r ?p (l = Null) []"
    by (rule buildTreeLines_acc)
  finally show ?thesis by simp
qed

lemma visualize_lines_Node:
  "visualize_lines toString (Node v l r)
     = toString v # buildTreeLines toString r [] (l = Null) []
                  @ buildTreeLines toString l [] True []"
proof -
  have "visualize_lines toString (Node v l r)
      = buildTreeLines toString l [] True (buildTreeLines toString r [] (l = Null) [toString v])"
    by (cases "r = Null"; cases "l = Null") (simp_all add: Let_def)
  also have "\<dots> = buildTreeLines toString r [] (l = Null) [toString v]
                     @ buildTreeLines toString l [] True []"
    by (rule buildTreeLines_acc)
  also have "buildTreeLines toString r [] (l = Null) [toString v]
               = [toString v] @ buildTreeLines toString r [] (l = Null) []"
    by (rule buildTreeLines_acc)
  finally show ?thesis by simp
qed

lemma length_buildTreeLines:
  "length (buildTreeLines toString n prefix isLast []) = countNodes n"
proof (induction n arbitrary: prefix isLast)
  case Null
  show ?case by simp
next
  case (Node v l r)
  show ?case unfolding buildTreeLines_Node by (simp add: Node.IH)
qed

lemma length_visualize_lines: "length (visualize_lines toString n) = countNodes n"
proof (cases n)
  case Null
  then show ?thesis by simp
next
  case (Node v l r)
  show ?thesis unfolding Node visualize_lines_Node by (simp add: length_buildTreeLines)
qed

lemma buildTreeLines_keys:
  "list_all2 (\<lambda>line k. \<exists>p. line = p @ toString k)
     (buildTreeLines toString n prefix isLast []) (preOrderTraversal (invert n) [])"
proof (induction n arbitrary: prefix isLast)
  case Null
  show ?case by simp
next
  case (Node v l r)
  have "\<exists>p. prefix @ (if isLast then corner else tee) @ toString v = p @ toString v"
    by (metis append.assoc)
  then show ?case
    unfolding buildTreeLines_Node invert.simps preOrderTraversal_Node
    by (intro list_all2_appendI list.rel_intros Node.IH) 
qed

lemma visualize_lines_keys:
  "list_all2 (\<lambda>line k. \<exists>p. line = p @ toString k)
     (visualize_lines toString n) (preOrderTraversal (invert n) [])"
proof (cases n)
  case Null
  then show ?thesis by simp
next
  case (Node v l r)
  have "\<exists>p. toString v = p @ toString v" by (rule exI [of _ "[]"]) simp
  then show ?thesis
    unfolding Node visualize_lines_Node invert.simps preOrderTraversal_Node
    by (intro list_all2_appendI list.rel_intros buildTreeLines_keys)
qed

lemma spec_siblings_Cons:
  "n \<noteq> Null \<Longrightarrow>
   spec_siblings toString prefix (n # cs)
     = buildTreeLines toString n prefix (cs = []) [] @ spec_siblings toString prefix cs"
proof (induction n arbitrary: prefix cs)
  case Null
  then show ?case by simp
next
  case (Node v l r)
  let ?p = "prefix @ (if cs = [] then ''    '' else bar)"
  have below: "spec_siblings toString ?p (children (Node v l r))
      = buildTreeLines toString r ?p (l = Null) [] @ buildTreeLines toString l ?p True []"
  proof (cases "r = Null")
    case rn: True
    show ?thesis
    proof (cases "l = Null")
      case True
      then show ?thesis using rn by simp
    next
      case False
      then show ?thesis using rn Node.IH(1) [of ?p "[]"] by simp
    qed
  next
    case rn: False
    show ?thesis
    proof (cases "l = Null")
      case True
      then show ?thesis using rn Node.IH(2) [of ?p "[]"] by simp
    next
      case False
      then show ?thesis
        using rn Node.IH(2) [of ?p "[l]"] Node.IH(1) [of ?p "[]"] by simp
    qed
  qed
  show ?case
    unfolding spec_siblings.simps below buildTreeLines_Node by simp
qed

lemma spec_siblings_children:
  "spec_siblings toString prefix (children (Node v l r))
     = buildTreeLines toString r prefix (l = Null) [] @ buildTreeLines toString l prefix True []"
proof (cases "r = Null")
  case rn: True
  show ?thesis
  proof (cases "l = Null")
    case True
    then show ?thesis using rn by simp
  next
    case False
    then show ?thesis using rn spec_siblings_Cons [of l toString prefix "[]"] by simp
  qed
next
  case rn: False
  show ?thesis
  proof (cases "l = Null")
    case True
    then show ?thesis using rn spec_siblings_Cons [of r toString prefix "[]"] by simp
  next
    case False
    then show ?thesis
      using rn spec_siblings_Cons [of r toString prefix "[l]"]
            spec_siblings_Cons [of l toString prefix "[]"] by simp
  qed
qed

lemma visualize_lines_spec_render: "visualize_lines toString n = spec_render toString n"
proof (cases n)
  case Null
  then show ?thesis by simp
next
  case (Node v l r)
  show ?thesis
    unfolding Node visualize_lines_Node spec_render.simps spec_siblings_children ..
qed

lemma join_terminated:
  "xs \<noteq> [] \<Longrightarrow> join xs sep @ sep = concat (map (\<lambda>x. x @ sep) xs)"
  by (induction xs sep rule: join.induct) simp_all

lemma visualize_logged:
  "snd (visualize toString (BinaryTree (Node v l r)))
     = [newline @ concat (map (\<lambda>line. line @ newline) (visualize_lines toString (Node v l r)))]"
proof -
  have "visualize_lines toString (Node v l r) \<noteq> []"
    unfolding visualize_lines_Node by simp
  then have "join (visualize_lines toString (Node v l r)) newline @ newline
      = concat (map (\<lambda>line. line @ newline) (visualize_lines toString (Node v l r)))"
    by (rule join_terminated)
  then show ?thesis by (simp add: visualize_def)
qed

lemma visualize_example_lines:
  "map_sum id (visualize_lines toString \<circ> root) (insert_all example_values newBinaryTree)
   = Inr [toString 50,
          tee @ toString 75,
          bar @ tee @ toString 90,
          bar @ bar @ tee @ toString 95,
          bar @ bar @ corner @ toString 85,
          bar @ corner @ toString 60,
          bar @ ''    '' @ tee @ toString 65,
          bar @ ''    '' @ corner @ toString 55,
          corner @ toString 10,
          ''    '' @ tee @ toString 30,
          ''    '' @ bar @ tee @ toString 35,
          ''    '' @ bar @ corner @ toString 25,
          ''    '' @ bar @ ''    '' @ tee @ toString 27,
          ''    '' @ bar @ ''    '' @ corner @ toString 15,
          ''    '' @ corner @ toString 5]"
  by (simp add: example_tree)

section \<open>The claims\<close>

text \<open>
  Claim C1. Inserting any finite sequence of pairwise distinct keys, in any order, into
  the empty tree never fails, and the in-order traversal of the tree that results is the
  sequence of those keys sorted, in strictly ascending order.
\<close>

theorem C1_inorder_of_inserted_keys_sorted:
  fixes ks :: "'a::linorder list"
  assumes "distinct ks"
  shows "\<exists>t. insert_all ks newBinaryTree = Inr t \<and>
             inOrderTraversal (root t) [] = sort ks \<and>
             sorted_wrt (<) (inOrderTraversal (root t) [])"
proof -
  have "bst (root (newBinaryTree :: 'a BinaryTree))"
    by (simp add: newBinaryTree_def)
  then obtain t where t: "insert_all ks newBinaryTree = Inr t"
    and b: "bst (root t)"
    and s: "set_node (root t) = set_node (root (newBinaryTree :: 'a BinaryTree)) \<union> set ks"
    using insert_all_bst by blast
  let ?xs = "inOrderTraversal (root t) []"
  have strict: "sorted_wrt (<) ?xs"
    using b by (simp add: bst_iff_sorted)
  have "set ?xs = set ks"
    using s by (simp add: set_inOrderTraversal newBinaryTree_def)
  then have "set ?xs = set (sort ks)" by simp
  moreover have "sorted ?xs" "distinct ?xs"
    using strict by (simp_all add: strict_sorted_iff)
  moreover have "sorted (sort ks)" "distinct (sort ks)"
    using assms by simp_all
  ultimately have "?xs = sort ks"
    by (metis sorted_distinct_set_unique)
  then show ?thesis using t strict by blast
qed

theorem C1_witness:
  "distinct example_values \<and>
   (\<exists>t. insert_all example_values newBinaryTree = Inr t \<and>
        inOrderTraversal (root t) [] =
          [5, 10, 15, 25, 27, 30, 35, 50, 55, 60, 65, 75, 85, 90, 95])"
proof -
  have d: "distinct example_values"
    by (simp add: example_values_def)
  have "sort example_values = [5, 10, 15, 25, 27, 30, 35, 50, 55, 60, 65, 75, 85, 90, 95]"
    by (simp add: example_values_def)
  then show ?thesis
    using d C1_inorder_of_inserted_keys_sorted [OF d] by auto
qed

text \<open>
  Claim C2, as the code has it. When \<open>search\<close> finds the key (which, in a tree with the
  search-tree property, is the case for every key stored in it), \<open>insert\<close> raises
  nothing, returns \<open>undefined\<close> (not the boolean \<open>false\<close>) and leaves the tree as it
  was. Otherwise it returns the tree object itself (\<open>this\<close>, not a boolean) and the tree
  has one node more.
\<close>

theorem C2_insert_duplicate_returns_undefined:
  "(bst (root t) \<and> k \<in> set_node (root t) \<longrightarrow> insert k t = Inr (Undefined, t)) \<and>
   (search k t \<longrightarrow> insert k t = Inr (Undefined, t)) \<and>
   (\<not> search k t \<longrightarrow>
      (\<exists>t'. insert k t = Inr (This, t') \<and> countNodes (root t') = countNodes (root t) + 1))"
proof -
  have dup: "search k t \<longrightarrow> insert k t = Inr (Undefined, t)"
    by (simp add: insert_found)
  have "bst (root t) \<and> k \<in> set_node (root t) \<longrightarrow> search k t"
    by (simp add: bst_search)
  moreover have "\<not> search k t \<longrightarrow>
      (\<exists>t'. insert k t = Inr (This, t') \<and> countNodes (root t') = countNodes (root t) + 1)"
  proof
    assume ns: "\<not> search k t"
    obtain res t' where t': "insert k t = Inr (res, t')"
      using insert_total by blast
    have "res = This" using insert_result [OF t'] ns by simp
    then show "\<exists>t'. insert k t = Inr (This, t') \<and>
                    countNodes (root t') = countNodes (root t) + 1"
      using t' insert_count [OF t'] by auto
  qed
  ultimately show ?thesis using dup by blast
qed

theorem C2_witness:
  "bst (Node (50::int) (Node 10 Null Null) Null) \<and>
   insert 10 (BinaryTree (Node (50::int) (Node 10 Null Null) Null))
     = Inr (Undefined, BinaryTree (Node 50 (Node 10 Null Null) Null)) \<and>
   \<not> search 75 (BinaryTree (Node (50::int) (Node 10 Null Null) Null)) \<and>
   insert 75 (BinaryTree (Node (50::int) (Node 10 Null Null) Null))
     = Inr (This, BinaryTree (Node 50 (Node 10 Null Null) (Node 75 Null Null)))"
  using C2_insert_duplicate_returns_undefined
          [where k = 10 and t = "BinaryTree (Node (50::int) (Node 10 Null Null) Null)"]
        C2_insert_duplicate_returns_undefined
          [where k = 75 and t = "BinaryTree (Node (50::int) (Node 10 Null Null) Null)"]
  by (simp add: search_def insert_def newNode_def)

text \<open>
  Claim C2 as stated fails twice. On a duplicate key \<open>insert\<close> returns \<open>undefined\<close>, not
  the boolean \<open>false\<close>. And in a tree without the search-tree property (here the tree
  with the keys 50 and 10 after \<open>invert\<close>) a key that is stored but off the comparison
  path is inserted a second time.
\<close>

theorem C2_counterexample:
  "insert (50::int) (BinaryTree (Node 50 Null Null))
     = Inr (Undefined, BinaryTree (Node 50 Null Null)) \<and>
   insert (50::int) (BinaryTree (Node 50 Null Null))
     \<noteq> Inr (Boolean False, BinaryTree (Node 50 Null Null)) \<and>
   (10::int) \<in> set_node (invert (Node 50 (Node 10 Null Null) Null)) \<and>
   insert (10::int) (BinaryTree (invert (Node 50 (Node 10 Null Null) Null)))
     = Inr (This, BinaryTree (Node 50 (Node 10 Null Null) (Node 10 Null Null)))"
  by (simp add: insert_def newNode_def)

text \<open>
  Claim C3, as the code has it. \<open>insert\<close> always returns, and right after it
  \<open>search\<close> finds the key, in every tree. \<open>search\<close> finds only keys that are stored;
  in a tree with the search-tree property it finds exactly the keys that are stored. The
  walk answers \<open>false\<close> when it reaches an absent child, and on the empty tree.
  \<open>search\<close> only reads the tree: it returns a boolean and no tree.
\<close>

theorem C3_search_finds_stored_keys:
  "(\<exists>res t'. insert k t = Inr (res, t') \<and> search k t') \<and>
   (search k t \<longrightarrow> k \<in> set_node (root t)) \<and>
   (bst (root t) \<longrightarrow> (search k t \<longleftrightarrow> k \<in> set_node (root t))) \<and>
   \<not> search_loop k Null \<and> \<not> search k newBinaryTree"
proof -
  obtain res t' where t': "insert k t = Inr (res, t')"
    using insert_total by blast
  have "search k t'" by (rule insert_search [OF t'])
  then have "\<exists>res t'. insert k t = Inr (res, t') \<and> search k t'"
    using t' by blast
  moreover have "search k t \<longrightarrow> k \<in> set_node (root t)"
    by (simp add: search_in_set)
  moreover have "bst (root t) \<longrightarrow> (search k t \<longleftrightarrow> k \<in> set_node (root t))"
    by (simp add: bst_search)
  moreover have "\<not> search_loop k Null \<and> \<not> search k newBinaryTree"
    by (simp add: search_def newBinaryTree_def)
  ultimately show ?thesis by blast
qed

theorem C3_witness:
  "bst (Node (50::int) (Node 10 Null Null) (Node 75 Null Null)) \<and>
   search 75 (BinaryTree (Node (50::int) (Node 10 Null Null) (Node 75 Null Null))) \<and>
   75 \<in> set_node (Node (50::int) (Node 10 Null Null) (Node 75 Null Null))"
  using C3_search_finds_stored_keys
          [where k = 75
             and t = "BinaryTree (Node (50::int) (Node 10 Null Null) (Node 75 Null Null))"]
  by (simp add: search_def)

text \<open>
  Claim C3 as stated, for every tree, fails: after \<open>invert\<close> the tree built from 50 and
  10 stores the key 10 to the right of 50, where the comparison walk of \<open>search\<close> does
  not look.
\<close>

theorem C3_counterexample:
  "insert_all [50, 10 :: int] newBinaryTree
     = Inr (BinaryTree (Node 50 (Node 10 Null Null) Null)) \<and>
   (10::int) \<in> set_node (invert (Node 50 (Node 10 Null Null) Null)) \<and>
   \<not> search (10::int) (BinaryTree (invert (Node 50 (Node 10 Null Null) Null)))"
  by (simp add: insert_def newNode_def newBinaryTree_def search_def)

text \<open>
  Claim C4. Inverting twice gives back the tree that was there before, and so the same
  pre-order traversal.
\<close>

theorem C4_invert_twice_restores:
  "invert (invert n) = n \<and>
   preOrderTraversal (invert (invert n)) [] = preOrderTraversal n []"
  by (simp add: invert_invert)

text \<open>
  Claim C5. In a tree with the search-tree property the in-order traversal after one
  \<open>invert\<close> is the reverse of the in-order traversal before it, and is strictly
  descending.
\<close>

theorem C5_inorder_after_invert_reversed:
  assumes "bst n"
  shows "inOrderTraversal (invert n) [] = rev (inOrderTraversal n []) \<and>
         sorted_wrt (>) (inOrderTraversal (invert n) [])"
proof -
  have "sorted_wrt (<) (inOrderTraversal n [])"
    using assms by (simp add: bst_iff_sorted)
  then have "sorted_wrt (>) (rev (inOrderTraversal n []))"
    by (simp add: sorted_wrt_rev)
  then show ?thesis by (simp add: inOrderTraversal_invert)
qed

theorem C5_witness:
  "bst (Node (50::int)
       (Node 10 (Node 5 Null Null)
         (Node 30 (Node 25 (Node 15 Null Null) (Node 27 Null Null)) (Node 35 Null Null)))
       (Node 75 (Node 60 (Node 55 Null Null) (Node 65 Null Null))
         (Node 90 (Node 85 Null Null) (Node 95 Null Null)))) \<and>
   map_sum id (rev \<circ> (\<lambda>n. inOrderTraversal n []) \<circ> root)
     (insert_all example_values newBinaryTree)
     = Inr [95, 90, 85, 75, 65, 60, 55, 50, 35, 30, 27, 25, 15, 10, 5] \<and>
   map_sum id ((\<lambda>n. inOrderTraversal n []) \<circ> invert \<circ> root)
     (insert_all example_values newBinaryTree)
     = Inr [95, 90, 85, 75, 65, 60, 55, 50, 35, 30, 27, 25, 15, 10, 5]"
proof -
  let ?n = "Node (50::int)
       (Node 10 (Node 5 Null Null)
         (Node 30 (Node 25 (Node 15 Null Null) (Node 27 Null Null)) (Node 35 Null Null)))
       (Node 75 (Node 60 (Node 55 Null Null) (Node 65 Null Null))
         (Node 90 (Node 85 Null Null) (Node 95 Null Null)))"
  have b: "bst ?n"
    by simp
  have "inOrderTraversal ?n [] = [5, 10, 15, 25, 27, 30, 35, 50, 55, 60, 65, 75, 85, 90, 95]"
    by simp
  then have "inOrderTraversal (invert ?n) []
               = [95, 90, 85, 75, 65, 60, 55, 50, 35, 30, 27, 25, 15, 10, 5]"
    using C5_inorder_after_invert_reversed [OF b] by simp
  then show ?thesis
    using b by (simp add: example_tree)
qed

text \<open>
  Claim C6, as the code has it. The height of an absent subtree is \<open>-1\<close>, that of a leaf
  is 0, and that of any node is one more than the larger of the heights of its two
  subtrees. The tree built from the values of the example usage has height 4: below 50
  come 10, 30, 25 and then 15 or 27.
\<close>

theorem C6_height:
  "getHeight Null = - 1 \<and>
   getHeight (Node v Null Null) = 0 \<and>
   getHeight (Node v l r) = 1 + max (getHeight l) (getHeight r) \<and>
   map_sum id (getHeight \<circ> root) (insert_all example_values newBinaryTree) = Inr 4"
  by (simp add: example_tree)

text \<open>
  Claim C6 as stated gives the height 3 for the tree of the example usage; the code
  computes 4.
\<close>

theorem C6_counterexample:
  "map_sum id (getHeight \<circ> root) (insert_all example_values newBinaryTree) = Inr 4 \<and>
   map_sum id (getHeight \<circ> root) (insert_all example_values newBinaryTree) \<noteq> Inr 3"
  by (simp add: example_tree)

text \<open>
  Claim C7. \<open>findMin\<close> returns the last key met when only left links are followed from
  the root, \<open>findMax\<close> the last key met when only right links are followed; these are
  the first and the last key of the in-order traversal. On the empty tree both return
  \<open>null\<close> and raise nothing.
\<close>

theorem C7_minimum_maximum:
  "findMin n = (if n = Null then None else Some (last (left_spine n))) \<and>
   findMax n = (if n = Null then None else Some (last (right_spine n))) \<and>
   (n \<noteq> Null \<longrightarrow> findMin n = Some (hd (inOrderTraversal n [])) \<and>
                 findMax n = Some (last (inOrderTraversal n []))) \<and>
   findMin (root newBinaryTree) = None \<and> findMax (root newBinaryTree) = None"
  using findMin_left_spine [of n] findMax_right_spine [of n]
        findMin_hd [of n] findMax_last [of n]
  by (simp add: newBinaryTree_def)

theorem C7_witness:
  "map_sum id (findMin \<circ> root) (insert_all example_values newBinaryTree) = Inr (Some 5) \<and>
   map_sum id (findMax \<circ> root) (insert_all example_values newBinaryTree) = Inr (Some 95) \<and>
   map_sum id (left_spine \<circ> root) (insert_all example_values newBinaryTree)
     = Inr [50, 10, 5] \<and>
   map_sum id (right_spine \<circ> root) (insert_all example_values newBinaryTree)
     = Inr [50, 75, 90, 95]"
  using C7_minimum_maximum
    [of "Node (50::int)
       (Node 10 (Node 5 Null Null)
         (Node 30 (Node 25 (Node 15 Null Null) (Node 27 Null Null)) (Node 35 Null Null)))
       (Node 75 (Node 60 (Node 55 Null Null) (Node 65 Null Null))
         (Node 90 (Node 85 Null Null) (Node 95 Null Null)))"]
  by (simp add: example_tree)

text \<open>
  Claim C8. When the store holds a tree at \<open>p\<close> (each node an object of its own) and the
  depth of calls suffices, \<open>invert\<close> returns; the store then has the same objects as
  before, each with the key it had; objects outside the tree are as they were; the
  store holds the mirror image of the tree, made of the same objects with the same keys.
  So the multiset of the nodes and of their keys, and the number that \<open>countNodes\<close>
  counts, are the same before and after \<open>invert\<close>.
\<close>

theorem C8_invert_changes_links_only:
  assumes "repr s p t"
    and "distinct (map fst (preOrderTraversal t []))"
    and "countNodes t < fuel"
  shows "\<exists>s'. invert_store fuel s p = Some s' \<and>
              dom s' = dom s \<and>
              (\<forall>a. map_option val (s' a) = map_option val (s a)) \<and>
              (\<forall>a. a \<notin> fst ` set_node t \<longrightarrow> s' a = s a) \<and>
              repr s' p (invert t) \<and>
              mset (inOrderTraversal (invert t) []) = mset (inOrderTraversal t []) \<and>
              mset (map snd (inOrderTraversal (invert t) []))
                = mset (map snd (inOrderTraversal t [])) \<and>
              countNodes (invert t) = countNodes t \<and>
              mset (inOrderTraversal (invert n) []) = mset (inOrderTraversal n []) \<and>
              countNodes (invert n) = countNodes n"
proof -
  obtain s' where run: "invert_store fuel s p = Some s'"
    and r: "repr s' p (invert t)"
    and out: "\<forall>a. a \<notin> fst ` set_node t \<longrightarrow> s' a = s a"
    using invert_store_repr [OF assms] by blast
  have "dom s' = dom s \<and> (\<forall>a. map_option val (s' a) = map_option val (s a))"
    by (rule invert_store_frame [OF run])
  moreover have "mset (map snd (inOrderTraversal (invert t) []))
                   = mset (map snd (inOrderTraversal t []))"
    by (simp add: inOrderTraversal_invert)
  ultimately show ?thesis
    using run r out mset_inOrderTraversal_invert [of t] mset_inOrderTraversal_invert [of n]
          countNodes_invert [of t] countNodes_invert [of n]
    by blast
qed

theorem C8_witness:
  "repr example_store (Some 0) (Node (0, 50) (Node (1, 10) Null Null) Null) \<and>
   distinct (map fst (preOrderTraversal (Node (0::nat, 50::int) (Node (1, 10) Null Null) Null) [])) \<and>
   countNodes (Node (0::nat, 50::int) (Node (1, 10) Null Null) Null) < 3 \<and>
   invert_store 3 example_store (Some 0)
     = Some [0 \<mapsto> \<lparr>val = 50, left = None, right = Some 1\<rparr>,
             1 \<mapsto> \<lparr>val = 10, left = None, right = None\<rparr>] \<and>
   repr [0 \<mapsto> \<lparr>val = 50, left = None, right = Some 1\<rparr>,
         1 \<mapsto> \<lparr>val = 10::int, left = None, right = None\<rparr>] (Some 0)
        (invert (Node (0, 50) (Node (1, 10) Null Null) Null))"
proof -
  let ?t = "Node (0::nat, 50::int) (Node (1, 10) Null Null) Null"
  have h1: "repr example_store (Some 0) ?t"
    by (simp add: example_store_def)
  have h2: "distinct (map fst (preOrderTraversal ?t []))"
    by simp
  have h3: "countNodes ?t < 3"
    by simp
  have run: "invert_store 3 example_store (Some 0)
     = Some [0 \<mapsto> \<lparr>val = 50, left = None, right = Some 1\<rparr>,
             1 \<mapsto> \<lparr>val = 10, left = None, right = None\<rparr>]"
    by (simp add: example_store_def numeral_3_eq_3 fun_upd_twist)
  show ?thesis
    using h1 h2 h3 run C8_invert_changes_links_only [OF h1 h2 h3, of Null] by auto
qed

text \<open>
  Claim C9. \<open>visualize\<close> leaves the tree as it was. For the empty tree it logs the
  message \<open>Tree is empty\<close> and no line of a tree. Otherwise it logs one string: a
  newline, then every line followed by a newline. The lines are those of the rendering
  in the words of the specification: the key of the root alone comes first; below every
  node the lines of the right subtree come before those of the left subtree, so that the
  keys appear in the pre-order of the mirrored tree, one line for each node; the last of
  the siblings carries the corner connector and a sibling before it the tee connector
  (the right child is the last one exactly when there is no left child, the left child
  always is). For the tree of the example usage the string logged is written out.
\<close>

theorem C9_visualize:
  "fst (visualize toString t) = t \<and>
   visualize toString newBinaryTree = (newBinaryTree, [''Tree is empty'']) \<and>
   snd (visualize toString (BinaryTree (Node v l r)))
     = [newline @ concat (map (\<lambda>line. line @ newline) (visualize_lines toString (Node v l r)))] \<and>
   visualize_lines toString n = spec_render toString n \<and>
   visualize_lines toString (Node v l r)
     = toString v # buildTreeLines toString r [] (l = Null) []
                  @ buildTreeLines toString l [] True [] \<and>
   buildTreeLines toString Null prefix isLast [] = [] \<and>
   buildTreeLines toString (Node v l r) prefix isLast []
     = (prefix @ (if isLast then corner else tee) @ toString v)
       # buildTreeLines toString r (prefix @ (if isLast then ''    '' else bar)) (l = Null) []
       @ buildTreeLines toString l (prefix @ (if isLast then ''    '' else bar)) True [] \<and>
   corner \<noteq> tee \<and>
   length (visualize_lines toString n) = countNodes n \<and>
   list_all2 (\<lambda>line k. \<exists>p. line = p @ toString k)
     (visualize_lines toString n) (preOrderTraversal (invert n) []) \<and>
   map_sum id (snd \<circ> visualize str) (insert_all example_values newBinaryTree)
     = Inr [newline @
            str 50 @ newline @
            tee @ str 75 @ newline @
            bar @ tee @ str 90 @ newline @
            bar @ bar @ tee @ str 95 @ newline @
            bar @ bar @ corner @ str 85 @ newline @
            bar @ corner @ str 60 @ newline @
            bar @ ''    '' @ tee @ str 65 @ newline @
            bar @ ''    '' @ corner @ str 55 @ newline @
            corner @ str 10 @ newline @
            ''    '' @ tee @ str 30 @ newline @
            ''    '' @ bar @ tee @ str 35 @ newline @
            ''    '' @ bar @ corner @ str 25 @ newline @
            ''    '' @ bar @ ''    '' @ tee @ str 27 @ newline @
            ''    '' @ bar @ ''    '' @ corner @ str 15 @ newline @
            ''    '' @ corner @ str 5 @ newline]"
proof -
  have c1: "fst (visualize toString t) = t"
    by (simp add: visualize_def)
  have c2: "visualize toString newBinaryTree = (newBinaryTree, [''Tree is empty''])"
    by (simp add: visualize_def newBinaryTree_def)
  have c3: "corner \<noteq> tee"
    by (simp add: corner_def tee_def)
  have c4: "buildTreeLines toString Null prefix isLast [] = []"
    by simp
  have c5: "map_sum id (snd \<circ> visualize str) (insert_all example_values newBinaryTree)
     = Inr [newline @
            str 50 @ newline @
            tee @ str 75 @ newline @
            bar @ tee @ str 90 @ newline @
            bar @ bar @ tee @ str 95 @ newline @
            bar @ bar @ corner @ str 85 @ newline @
            bar @ corner @ str 60 @ newline @
            bar @ ''    '' @ tee @ str 65 @ newline @
            bar @ ''    '' @ corner @ str 55 @ newline @
            corner @ str 10 @ newline @
            ''    '' @ tee @ str 30 @ newline @
            ''    '' @ bar @ tee @ str 35 @ newline @
            ''    '' @ bar @ corner @ str 25 @ newline @
            ''    '' @ bar @ ''    '' @ tee @ str 27 @ newline @
            ''    '' @ bar @ ''    '' @ corner @ str 15 @ newline @
            ''    '' @ corner @ str 5 @ newline]"
    by (simp add: example_tree visualize_def)
  show ?thesis
    using c1 c2 c3 c4 c5
          visualize_logged [of toString v l r]
          visualize_lines_spec_render [of toString n]
          visualize_lines_Node [of toString v l r]
          buildTreeLines_Node [of toString v l r prefix isLast]
          length_visualize_lines [of toString n]
          visualize_lines_keys [of toString n]
    by blast
qed

text \<open>
  Claim C10. For every tree the in-order, pre-order and post-order traversals all have
  as many elements as \<open>countNodes\<close> counts, and hold the same keys with the same
  multiplicities.
\<close>

theorem C10_traversals_consistent:
  "length (inOrderTraversal n []) = countNodes n \<and>
   length (preOrderTraversal n []) = countNodes n \<and>
   length (postOrderTraversal n []) = countNodes n \<and>
   mset (preOrderTraversal n []) = mset (inOrderTraversal n []) \<and>
   mset (postOrderTraversal n []) = mset (inOrderTraversal n [])"
  by (simp add: length_inOrderTraversal length_preOrderTraversal length_postOrderTraversal
                mset_preOrderTraversal mset_postOrderTraversal)


end
